theory Spec2Isabelle
  imports Complex_Main "HOL-Library.Multiset"
begin

section \<open>JavaScript arrays and values\<close>

text \<open>
  The arrays of \<^verbatim>\<open>mastermind.jsx\<close> hold colour keys (strings), \<^verbatim>\<open>null\<close> for a slot of
  the guess row that is not set yet, and \<^verbatim>\<open>undefined\<close> where a read goes past the end of
  an array. An assignment past the end of an array leaves empty positions behind, which
  \<^verbatim>\<open>every\<close>, \<^verbatim>\<open>reduce\<close> and \<^verbatim>\<open>slice\<close> treat differently from a stored \<^verbatim>\<open>undefined\<close>;
  \<open>Hole\<close> stands for such a position. Numbers are integers: the counts of the scorer,
  the configured length and the attempt budget.
\<close>

datatype slot = Hole | Undefined | Null | Str string

text \<open>Reading a position by index or by iteration: an empty position reads as \<^verbatim>\<open>undefined\<close>.\<close>

fun read_slot :: "slot \<Rightarrow> slot" where
  "read_slot Hole = Undefined"
| "read_slot v = v"

text \<open>\<^verbatim>\<open>xs[i]\<close>: out of range is \<^verbatim>\<open>undefined\<close>.\<close>

definition js_index :: "slot list \<Rightarrow> nat \<Rightarrow> slot" where
  "js_index xs i = (if i < length xs then read_slot (xs ! i) else Undefined)"

text \<open>\<^verbatim>\<open>!!c\<close>: of the values a slot can hold, only a non-empty string is truthy.\<close>

fun truthy :: "slot \<Rightarrow> bool" where
  "truthy (Str s) = (s \<noteq> [])"
| "truthy v = False"

text \<open>
  The source raises no exception of its own. The platform raises \<^verbatim>\<open>RangeError\<close> when an
  array of \<open>2\<^sup>3\<^sup>2\<close> or more positions is asked for. The two other error names are the
  ones the specification gives to a rejected configuration and to a rejected guess. A
  call that returns normally is \<open>Inr\<close> of its result, a call that raises is \<open>Inl\<close> of
  the error.
\<close>

datatype error = InvalidConfiguration | InvalidInput | RangeError

text \<open>
  \<^verbatim>\<open>Array.from({ length }, f)\<close>: a negative length gives the empty array, and a length of
  \<open>2\<^sup>3\<^sup>2\<close> = 4294967296 or more raises, since the array is first created with that
  length.
\<close>

definition array_from :: "int \<Rightarrow> (nat \<Rightarrow> 'a) \<Rightarrow> error + 'a list" where
  "array_from len f =
     (if 4294967296 \<le> len then Inl RangeError else Inr (map f [0..<nat len]))"

text \<open>\<^verbatim>\<open>arr.slice(0, end)\<close>: a negative end counts from the end of the array.\<close>

definition slice0 :: "'a list \<Rightarrow> int \<Rightarrow> 'a list" where
  "slice0 xs e =
     (let n = int (length xs);
          fin = (if e < 0 then max (n + e) 0 else min e n)
      in take (nat fin) xs)"

text \<open>
  \<^verbatim>\<open>xs.every(p)\<close> visits the positions that exist and skips the empty ones.
\<close>

definition every :: "(slot \<Rightarrow> bool) \<Rightarrow> slot list \<Rightarrow> bool" where
  "every p xs = list_all p (filter (\<lambda>v. v \<noteq> Hole) xs)"

text \<open>
  \<^verbatim>\<open>xs[i] = v\<close>: inside the array the position is overwritten; past the end the array
  grows to \<open>i + 1\<close> positions and the ones in between stay empty.
\<close>

definition assign :: "slot list \<Rightarrow> nat \<Rightarrow> slot \<Rightarrow> slot list" where
  "assign xs i v =
     (if i < length xs then xs[i := v]
      else xs @ replicate (i - length xs) Hole @ [v])"

subsection \<open>\<^verbatim>\<open>Map\<close>\<close>

text \<open>
  A \<^verbatim>\<open>Map\<close> from slot values to counts, as the list of its entries in insertion order,
  which is the order \<^verbatim>\<open>entries()\<close> iterates in. \<^verbatim>\<open>set\<close> on a key that is present
  replaces the value where the entry stands.
\<close>

type_synonym counts = "(slot \<times> int) list"

fun map_get :: "counts \<Rightarrow> slot \<Rightarrow> int option" where
  "map_get [] c = None"
| "map_get ((c', v) # m) c = (if c' = c then Some v else map_get m c)"

fun map_set :: "counts \<Rightarrow> slot \<Rightarrow> int \<Rightarrow> counts" where
  "map_set [] c v = [(c, v)]"
| "map_set ((c', v') # m) c v = (if c' = c then (c, v) # m else (c', v') # map_set m c v)"

text \<open>\<^verbatim>\<open>m.get(c) || 0\<close>: a missing key (and a count of zero) gives 0.\<close>

fun or0 :: "int option \<Rightarrow> int" where
  "or0 None = 0"
| "or0 (Some v) = (if v = 0 then 0 else v)"

section \<open>The scorer\<close>

record feedback =
  blacks :: int
  whites :: int

text \<open>
  \<^verbatim>\<open>secret.reduce((acc, s, i) => acc + (s === guess[i] ? 1 : 0), 0)\<close>, with the index
  \<open>i\<close> and the accumulator explicit; \<^verbatim>\<open>reduce\<close> skips empty positions.
\<close>

fun reduce_blacks :: "slot list \<Rightarrow> slot list \<Rightarrow> nat \<Rightarrow> int \<Rightarrow> int" where
  "reduce_blacks [] gs i acc = acc"
| "reduce_blacks (s # ss) gs i acc =
     reduce_blacks ss gs (Suc i)
       (if s = Hole then acc else acc + (if s = js_index gs i then 1 else 0))"

text \<open>\<^verbatim>\<open>for (const s of xs) m.set(s, (m.get(s) || 0) + 1)\<close>, from the empty map.\<close>

definition count_step :: "slot \<Rightarrow> counts \<Rightarrow> counts" where
  "count_step s m = map_set m (read_slot s) (or0 (map_get m (read_slot s)) + 1)"

definition count_all :: "slot list \<Rightarrow> counts" where
  "count_all xs = fold count_step xs []"

text \<open>The loop over \<^verbatim>\<open>secCounts.entries()\<close> that adds up \<^verbatim>\<open>overlap\<close>.\<close>

definition overlap_step :: "counts \<Rightarrow> slot \<times> int \<Rightarrow> int \<Rightarrow> int" where
  "overlap_step gueCounts e ov =
     (case e of (c, sc) \<Rightarrow> let gc = or0 (map_get gueCounts c) in ov + min sc gc)"

definition overlap_of :: "slot list \<Rightarrow> slot list \<Rightarrow> int" where
  "overlap_of secret0 guess0 =
     (let secCounts = count_all secret0;
          gueCounts = count_all guess0
      in fold (overlap_step gueCounts) secCounts 0)"

definition scoreGuess :: "slot list \<Rightarrow> slot list \<Rightarrow> feedback" where
  "scoreGuess secret0 guess0 =
     (let b = reduce_blacks secret0 guess0 0 0;
          overlap = overlap_of secret0 guess0;
          w = max 0 (overlap - b)
      in \<lparr>blacks = b, whites = w\<rparr>)"

text \<open>An array is dense when it has no empty position.\<close>

definition dense :: "slot list \<Rightarrow> bool" where
  "dense xs = (Hole \<notin> set xs)"

subsection \<open>The scoring rule in the words of the specification\<close>

text \<open>
  \<open>exact\<close>: the number of indices \<open>i\<close> where \<open>secret[i] == guess[i]\<close>.
  \<open>overlap\<close>: the sum, over every colour that appears in the secret or in the guess,
  of the minimum of its number of occurrences in the secret and in the guess.
\<close>

definition spec_exact :: "slot list \<Rightarrow> slot list \<Rightarrow> int" where
  "spec_exact secret0 guess0 =
     int (length (filter (\<lambda>i. secret0 ! i = guess0 ! i) [0..<length secret0]))"

definition spec_overlap :: "slot list \<Rightarrow> slot list \<Rightarrow> int" where
  "spec_overlap secret0 guess0 =
     (\<Sum>c\<in>set secret0 \<union> set guess0.
        min (int (count_list secret0 c)) (int (count_list guess0 c)))"

section \<open>The code generator\<close>

text \<open>
  One call of \<^verbatim>\<open>randomCode\<close> reads the random source in two ways: the \<open>i\<close>-th
  evaluation of \<^verbatim>\<open>Math.random()\<close> inside \<^verbatim>\<open>Array.from\<close>, a number taken as a real,
  and the order in which \<^verbatim>\<open>arr.sort(() => Math.random() - 0.5)\<close> leaves the array,
  which depends on the engine's sorting algorithm. Both are parameters of the model.
\<close>

record rng =
  math_random :: "nat \<Rightarrow> real"
  sort_order :: "string list \<Rightarrow> string list"

text \<open>
  What is assumed of them: \<^verbatim>\<open>Math.random()\<close> lies in \<open>[0, 1)\<close>, and \<^verbatim>\<open>sort\<close>
  leaves a permutation of the array, as an engine that sorts by moving elements does
  whatever the comparator answers. The product with \<^verbatim>\<open>keys.length\<close> is taken exactly.
\<close>

definition rng_ok :: "rng \<Rightarrow> bool" where
  "rng_ok g \<longleftrightarrow>
     (\<forall>i. 0 \<le> math_random g i \<and> math_random g i < 1) \<and>
     (\<forall>xs. mset (sort_order g xs) = mset xs)"

text \<open>\<^verbatim>\<open>keys[j]\<close> on the array of colour keys.\<close>

definition key_at :: "string list \<Rightarrow> int \<Rightarrow> slot" where
  "key_at ks j = (if 0 \<le> j \<and> j < int (length ks) then Str (ks ! nat j) else Undefined)"

function randomCode :: "rng \<Rightarrow> string list \<Rightarrow> int \<Rightarrow> bool \<Rightarrow> error + slot list" where
  "randomCode g ks len True =
     array_from len (\<lambda>i. key_at ks \<lfloor>math_random g i * real (length ks)\<rfloor>)"
| "randomCode g ks len False =
     (let arr = ks in
      if len > int (length arr) then randomCode g ks len True
      else let arr' = sort_order g arr in Inr (map Str (slice0 arr' len)))"
  by pat_completeness auto
termination
  by (relation "measure (\<lambda>(g, ks, len, dup). if dup then 0 else 1)") auto

section \<open>The game session\<close>

record color =
  k :: string
  label :: string
  hex :: string

definition defaultPalette :: "color list" where
  "defaultPalette =
     [\<lparr>k = ''r'', label = ''Red'', hex = ''#ef4444''\<rparr>,
      \<lparr>k = ''b'', label = ''Blue'', hex = ''#3b82f6''\<rparr>,
      \<lparr>k = ''g'', label = ''Green'', hex = ''#22c55e''\<rparr>,
      \<lparr>k = ''y'', label = ''Yellow'', hex = ''#eab308''\<rparr>,
      \<lparr>k = ''o'', label = ''Orange'', hex = ''#f97316''\<rparr>,
      \<lparr>k = ''p'', label = ''Purple'', hex = ''#a855f7''\<rparr>]"

record attempt =
  guess :: "slot list"
  feedback :: feedback

text \<open>
  The state of \<^verbatim>\<open>MastermindApp\<close>: one field for each \<^verbatim>\<open>useState\<close>. The field
  \<open>length_st\<close> is the source's \<^verbatim>\<open>length\<close>.
\<close>

record state =
  palette :: "color list"
  length_st :: int
  attempts :: int
  allowDup :: bool
  secret :: "slot list"
  current :: "slot list"
  cursor :: nat
  history :: "attempt list"
  gameOver :: bool
  reveal :: bool

definition keys :: "state \<Rightarrow> string list" where
  "keys st = map k (palette st)"

text \<open>
  The initial render: the defaults, the initialiser of \<^verbatim>\<open>secret\<close> and the initial
  value of \<^verbatim>\<open>current\<close>. An exception leaves the function at the call that raises it.
\<close>

definition init :: "rng \<Rightarrow> error + state" where
  "init g =
     (case randomCode g (map k defaultPalette) 4 True of
        Inl e \<Rightarrow> Inl e
      | Inr s \<Rightarrow>
          (case array_from 4 (\<lambda>_. Null) of
             Inl e \<Rightarrow> Inl e
           | Inr row \<Rightarrow>
               Inr \<lparr>palette = defaultPalette, length_st = 4, attempts = 10,
                    allowDup = True, secret = s, current = row, cursor = 0,
                    history = [], gameOver = False, reveal = False\<rparr>))"

definition resetGame :: "rng \<Rightarrow> state \<Rightarrow> error + state" where
  "resetGame g st =
     (case randomCode g (keys st) (length_st st) (allowDup st) of
        Inl e \<Rightarrow> Inl e
      | Inr newSecret \<Rightarrow>
          (case array_from (length_st st) (\<lambda>_. Null) of
             Inl e \<Rightarrow> Inl e
           | Inr row \<Rightarrow>
               Inr (st\<lparr>secret := newSecret, current := row,
                       cursor := 0, history := [], gameOver := False, reveal := False\<rparr>)))"

definition canSubmit :: "state \<Rightarrow> bool" where
  "canSubmit st \<longleftrightarrow> every truthy (current st) \<and> \<not> gameOver st"

definition handleSetSlot :: "nat \<Rightarrow> state \<Rightarrow> state" where
  "handleSetSlot i st = st\<lparr>cursor := i\<rparr>"

text \<open>
  \<^verbatim>\<open>[...current]\<close> copies by iteration, so an empty position is copied as
  \<^verbatim>\<open>undefined\<close>. The configured length lies between 2 and 10 in every state of the
  application (lemma \<open>length_range\<close> below) and the cursor is not negative, where
  \<^verbatim>\<open>%\<close> is \<open>mod\<close>.
\<close>

definition handlePick :: "string \<Rightarrow> state \<Rightarrow> state" where
  "handlePick c st =
     (if gameOver st then st
      else let next = assign (map read_slot (current st)) (cursor st) (Str c);
               nextIdx = nat ((int (cursor st) + 1) mod length_st st)
           in st\<lparr>current := next, cursor := nextIdx\<rparr>)"

text \<open>
  \<^verbatim>\<open>current.slice()\<close> copies the array with its empty positions. When the game goes
  on, the empty row for the next guess is made with \<^verbatim>\<open>Array.from\<close>; if that raises, the
  call is \<open>Inl\<close> of the error alone, and the update of the history queued before it is
  not part of the result.
\<close>

definition submit :: "state \<Rightarrow> error + state" where
  "submit st =
     (if \<not> canSubmit st then Inr st
      else let g = current st;
               fb = scoreGuess (secret st) g;
               newHistory = history st @ [\<lparr>guess = g, feedback = fb\<rparr>];
               st1 = st\<lparr>history := newHistory\<rparr>
           in if blacks fb = length_st st then Inr (st1\<lparr>gameOver := True\<rparr>)
              else if int (length newHistory) \<ge> attempts st then Inr (st1\<lparr>gameOver := True\<rparr>)
              else (case array_from (length_st st) (\<lambda>_. Null) of
                      Inl e \<Rightarrow> Inl e
                    | Inr row \<Rightarrow> Inr (st1\<lparr>current := row, cursor := 0\<rparr>)))"

definition addCyanMagenta :: "state \<Rightarrow> state" where
  "addCyanMagenta st =
     (let extra = [\<lparr>k = ''c'', label = ''Cyan'', hex = ''#06b6d4''\<rparr>,
                   \<lparr>k = ''m'', label = ''Magenta'', hex = ''#db2777''\<rparr>];
          existing = set (map k (palette st));
          merged = palette st @ filter (\<lambda>e. k e \<notin> existing) extra
      in st\<lparr>palette := merged\<rparr>)"

text \<open>The handlers of the two number inputs, on an integer input.\<close>

definition setLength :: "int \<Rightarrow> state \<Rightarrow> state" where
  "setLength n st = (let v = min 10 (max 2 n) in st\<lparr>length_st := v\<rparr>)"

definition setAttempts :: "int \<Rightarrow> state \<Rightarrow> state" where
  "setAttempts n st = (let v = min 20 (max 1 n) in st\<lparr>attempts := v\<rparr>)"

text \<open>The button under the board: \<^verbatim>\<open>setReveal((r) => !r)\<close>.\<close>

definition toggleReveal :: "state \<Rightarrow> state" where
  "toggleReveal st = st\<lparr>reveal := \<not> reveal st\<rparr>"

text \<open>What the board shows of the secret: \<^verbatim>\<open>reveal && secret.map(...)\<close>.\<close>

definition revealSecret :: "state \<Rightarrow> slot list option" where
  "revealSecret st = (if reveal st then Some (secret st) else None)"

text \<open>
  The source keeps one flag, \<^verbatim>\<open>gameOver\<close>; \<^verbatim>\<open>statusText\<close> tells a won game from a
  lost one by the feedback of the last attempt.
\<close>

datatype status = InProgress | Won | Lost

definition status_of :: "state \<Rightarrow> status" where
  "status_of st =
     (if gameOver st
      then (if history st \<noteq> [] \<and> blacks (feedback (last (history st))) = length_st st
            then Won else Lost)
      else InProgress)"

subsection \<open>Events of the user interface\<close>

text \<open>
  One constructor for each control. A palette button exists for each entry of the
  palette; the guess row, with its slots and its button, is rendered while the game is
  not over, with one slot button for each position of \<^verbatim>\<open>current\<close> that exists.
\<close>

datatype event =
    NewGame rng
  | ChangeLength int
  | ChangeAttempts int
  | ChangeAllowDup bool
  | AddCyanMagenta
  | StandardColors
  | PickColor nat
  | ClickSlot nat
  | Guess
  | ToggleReveal

fun step :: "event \<Rightarrow> state \<Rightarrow> error + state" where
  "step (NewGame g) st = resetGame g st"
| "step (ChangeLength n) st = Inr (setLength n st)"
| "step (ChangeAttempts n) st = Inr (setAttempts n st)"
| "step (ChangeAllowDup b) st = Inr (st\<lparr>allowDup := b\<rparr>)"
| "step AddCyanMagenta st = Inr (addCyanMagenta st)"
| "step StandardColors st = Inr (st\<lparr>palette := defaultPalette\<rparr>)"
| "step (PickColor i) st =
     Inr (if i < length (palette st) then handlePick (k (palette st ! i)) st else st)"
| "step (ClickSlot i) st =
     Inr (if \<not> gameOver st \<and> i < length (current st) \<and> current st ! i \<noteq> Hole
          then handleSetSlot i st else st)"
| "step Guess st = (if gameOver st then Inr st else submit st)"
| "step ToggleReveal st = Inr (toggleReveal st)"

fun run :: "event list \<Rightarrow> error + state \<Rightarrow> error + state" where
  "run [] r = r"
| "run (e # es) (Inl err) = Inl err"
| "run (e # es) (Inr st) = run es (step e st)"

section \<open>Notions used in the proofs\<close>

text \<open>
  The decision the specification gives for a guess that was just recorded, from the
  number of exact matches, the configured length, the number of recorded attempts and
  the attempt budget.
\<close>

definition spec_outcome :: "int \<Rightarrow> int \<Rightarrow> int \<Rightarrow> int \<Rightarrow> status" where
  "spec_outcome exact len n maxAttempts =
     (if exact = len then Won else if n = maxAttempts then Lost else InProgress)"

text \<open>The pairs of a position-wise comparison that agree.\<close>

definition agree :: "slot list \<Rightarrow> slot list \<Rightarrow> (slot \<times> slot) list" where
  "agree a b = filter (\<lambda>p. fst p = snd p) (zip a b)"

text \<open>A count map that holds exactly the multiplicities of a multiset.\<close>

definition counts_of :: "counts \<Rightarrow> slot multiset \<Rightarrow> bool" where
  "counts_of m M \<longleftrightarrow>
     distinct (map fst m) \<and>
     (\<forall>c. map_get m c = (if c \<in># M then Some (int (count M c)) else None))"

subsection \<open>Concrete inputs\<close>

text \<open>A random source that always draws 0 and whose sort leaves the array as it is.\<close>

definition rng_first :: rng where
  "rng_first = \<lparr>math_random = (\<lambda>i. 0), sort_order = (\<lambda>xs. xs)\<rparr>"

text \<open>
  A random source that draws 0, 1/3, 2/3, 0, ... and whose sort reverses the array.
\<close>

definition rng_rev :: rng where
  "rng_rev = \<lparr>math_random = (\<lambda>i. real (i mod 3) / 3), sort_order = rev\<rparr>"

definition keys_rbg :: "string list" where
  "keys_rbg = [''r'', ''b'', ''g'']"

definition code_rrbg :: "slot list" where
  "code_rrbg = [Str ''r'', Str ''r'', Str ''b'', Str ''g'']"

definition code_rbby :: "slot list" where
  "code_rbby = [Str ''r'', Str ''b'', Str ''b'', Str ''y'']"

definition code_rrrr :: "slot list" where
  "code_rrrr = [Str ''r'', Str ''r'', Str ''r'', Str ''r'']"

definition code_bbbb :: "slot list" where
  "code_bbbb = [Str ''b'', Str ''b'', Str ''b'', Str ''b'']"

text \<open>The state after the first render with \<open>rng_first\<close>.\<close>

definition state_first :: state where
  "state_first =
     \<lparr>palette = defaultPalette, length_st = 4, attempts = 10, allowDup = True,
      secret = code_rrrr, current = [Null, Null, Null, Null], cursor = 0,
      history = [], gameOver = False, reveal = False\<rparr>"

text \<open>
  A session in which the player guesses four times blue, lowers the attempt budget to 1,
  and fills the row with four times blue again; the state it leads to, and the state
  after the second guess.
\<close>

definition budget_trace :: "event list" where
  "budget_trace =
     [PickColor 1, PickColor 1, PickColor 1, PickColor 1, Guess, ChangeAttempts 1,
      PickColor 1, PickColor 1, PickColor 1, PickColor 1]"

definition budget_state :: state where
  "budget_state =
     state_first\<lparr>attempts := 1, current := code_bbbb,
       history := [\<lparr>guess = code_bbbb, feedback = \<lparr>blacks = 0, whites = 0\<rparr>\<rparr>]\<rparr>"

definition budget_after :: state where
  "budget_after =
     budget_state\<lparr>gameOver := True,
       history := [\<lparr>guess = code_bbbb, feedback = \<lparr>blacks = 0, whites = 0\<rparr>\<rparr>,
                   \<lparr>guess = code_bbbb, feedback = \<lparr>blacks = 0, whites = 0\<rparr>\<rparr>]\<rparr>"

text \<open>A state with a complete row, and the state after the winning guess in it.\<close>

definition ready_state :: state where
  "ready_state = state_first\<lparr>current := code_rrrr\<rparr>"

definition won_state :: state where
  "won_state =
     ready_state\<lparr>gameOver := True,
       history := [\<lparr>guess = code_rrrr, feedback = \<lparr>blacks = 4, whites = 0\<rparr>\<rparr>]\<rparr>"

text \<open>The state after the length input was set to 5 in the first state.\<close>

definition longer_state :: state where
  "longer_state = state_first\<lparr>length_st := 5\<rparr>"

section \<open>Properties of the scorer\<close>

subsection \<open>The count maps\<close>

lemma map_get_map_set: "map_get (map_set m c v) c' = (if c' = c then Some v else map_get m c')"
  by (induction m) auto

lemma keys_map_set: "fst ` set (map_set m c v) = insert c (fst ` set m)"
  by (induction m) force+

lemma map_get_None_iff: "map_get m c = None \<longleftrightarrow> c \<notin> fst ` set m"
  by (induction m) force+

lemma distinct_map_set: "distinct (map fst m) \<Longrightarrow> distinct (map fst (map_set m c v))"
  by (induction m) (force simp: keys_map_set)+

lemma counts_of_step: "counts_of m M \<Longrightarrow> counts_of (count_step s m) (add_mset (read_slot s) M)"
  unfolding counts_of_def count_step_def
  by (auto simp: map_get_map_set distinct_map_set)

lemma counts_of_fold: "counts_of m M \<Longrightarrow> counts_of (fold count_step xs m) (M + mset (map read_slot xs))"
proof (induction xs arbitrary: m M)
  case Nil
  then show ?case by simp
next
  case (Cons x xs)
  from counts_of_step[OF Cons.prems] Cons.IH show ?case by fastforce
qed

lemma counts_of_count_all: "counts_of (count_all xs) (mset (map read_slot xs))"
  using counts_of_fold[of "[]" "{#}" xs] by (simp add: count_all_def counts_of_def)

lemma fold_overlap_step:
  "fold (overlap_step g) m a = a + sum_list (map (\<lambda>e. min (snd e) (or0 (map_get g (fst e)))) m)"
  by (induction m arbitrary: a) (auto simp: overlap_step_def)

lemma map_get_Some_mem: "distinct (map fst m) \<Longrightarrow> (c, v) \<in> set m \<Longrightarrow> map_get m c = Some v"
  by (induction m) force+

lemma counts_of_entries:
  assumes "counts_of m M"
  shows "m = map (\<lambda>c. (c, int (count M c))) (map fst m)"
    and "set (map fst m) = set_mset M"
    and "distinct (map fst m)"
proof -
  from assms have d: "distinct (map fst m)"
    and g: "\<And>c. map_get m c = (if c \<in># M then Some (int (count M c)) else None)"
    by (simp_all add: counts_of_def)
  show "distinct (map fst m)" by (rule d)
  have "e = (fst e, int (count M (fst e)))" if "e \<in> set m" for e
  proof -
    from that d have "map_get m (fst e) = Some (snd e)"
      using map_get_Some_mem[of m "fst e" "snd e"] by simp
    with g[of "fst e"] have "snd e = int (count M (fst e))"
      by (simp split: if_splits)
    then show ?thesis by (metis prod.collapse)
  qed
  then show "m = map (\<lambda>c. (c, int (count M c))) (map fst m)"
    by (simp add: map_idI comp_def)
  show "set (map fst m) = set_mset M"
  proof -
    have "c \<in> fst ` set m \<longleftrightarrow> c \<in># M" for c
      using g[of c] map_get_None_iff[of m c] by (auto split: if_splits)
    then show ?thesis by auto
  qed
qed

lemma or0_counts_of: "counts_of g N \<Longrightarrow> or0 (map_get g c) = int (count N c)"
  by (auto simp: counts_of_def not_in_iff)

lemma size_inter_sum:
  "int (size (M \<inter># N)) = (\<Sum>c\<in>set_mset M. min (int (count M c)) (int (count N c)))"
proof -
  have "size (M \<inter># N) = (\<Sum>c\<in>set_mset (M \<inter># N). count (M \<inter># N) c)"
    by (simp add: size_multiset_overloaded_eq)
  also have "\<dots> = (\<Sum>c\<in>set_mset M. count (M \<inter># N) c)"
    by (rule sum.mono_neutral_left) (auto simp: not_in_iff)
  finally have "size (M \<inter># N) = (\<Sum>c\<in>set_mset M. min (count M c) (count N c))"
    by simp
  then show ?thesis by (simp add: min_def if_distrib)
qed

lemma overlap_of_size:
  "overlap_of a b = int (size (mset (map read_slot a) \<inter># mset (map read_slot b)))"
proof -
  let ?M = "mset (map read_slot a)" and ?N = "mset (map read_slot b)"
  let ?m = "count_all a" and ?g = "count_all b"
  have cm: "counts_of ?m ?M" and cg: "counts_of ?g ?N"
    by (rule counts_of_count_all)+
  let ?h = "\<lambda>c. min (int (count ?M c)) (int (count ?N c))"
  have "overlap_of a b = sum_list (map (\<lambda>e. min (snd e) (or0 (map_get ?g (fst e)))) ?m)"
    by (simp add: overlap_of_def fold_overlap_step)
  also have "\<dots> = sum_list (map (\<lambda>e. min (snd e) (int (count ?N (fst e)))) ?m)"
    by (simp add: or0_counts_of[OF cg])
  also have "\<dots> = sum_list (map (\<lambda>e. min (snd e) (int (count ?N (fst e))))
       (map (\<lambda>c. (c, int (count ?M c))) (map fst ?m)))"
    using counts_of_entries(1)[OF cm] by simp
  also have "\<dots> = sum_list (map ?h (map fst ?m))"
    by (simp add: comp_def)
  also have "\<dots> = sum ?h (set (map fst ?m))"
    by (rule sum_list_distinct_conv_sum_set) (rule counts_of_entries(3)[OF cm])
  also have "\<dots> = sum ?h (set_mset ?M)"
    by (simp only: counts_of_entries(2)[OF cm])
  finally show ?thesis by (simp only: size_inter_sum)
qed

lemma dense_read: "dense xs \<Longrightarrow> map read_slot xs = xs"
proof (induction xs)
  case Nil
  show ?case by simp
next
  case (Cons x xs)
  then show ?case by (cases x) (simp_all add: dense_def)
qed

lemma reduce_blacks_bounds:
  "acc \<le> reduce_blacks ss gs i acc \<and> reduce_blacks ss gs i acc \<le> acc + int (length ss)"
proof (induction ss arbitrary: i acc)
  case Nil
  show ?case by simp
next
  case (Cons s ss)
  let ?acc' = "if s = Hole then acc else acc + (if s = js_index gs i then 1 else 0)"
  from Cons.IH[where i="Suc i" and acc="?acc'"] show ?case by (simp split: if_splits)
qed

lemma reduce_blacks_zip:
  "dense ss \<Longrightarrow> dense gs \<Longrightarrow> length gs = i + length ss \<Longrightarrow>
   reduce_blacks ss gs i acc = acc + int (length (agree ss (drop i gs)))"
proof (induction ss arbitrary: i acc)
  case Nil
  show ?case by (simp add: agree_def)
next
  case (Cons s ss)
  from Cons.prems have i: "i < length gs" by simp
  then have d: "drop i gs = gs ! i # drop (Suc i) gs"
    by (simp add: Cons_nth_drop_Suc)
  from Cons.prems i have "gs ! i \<noteq> Hole"
    by (metis dense_def nth_mem)
  then have r: "js_index gs i = gs ! i"
    using i by (cases "gs ! i") (simp_all add: js_index_def)
  from Cons.prems have s: "s \<noteq> Hole" and ds: "dense ss"
    by (auto simp: dense_def)
  from Cons.prems have l: "length gs = Suc i + length ss" by simp
  show ?case
    using Cons.IH[OF ds Cons.prems(2) l] s r d
    by (simp add: agree_def)
qed

lemma agree_index:
  "length a = length b \<Longrightarrow>
   length (filter (\<lambda>i. a ! i = b ! i) [0..<length a]) = length (agree a b)"
proof (induction a b rule: list_induct2)
  case Nil
  show ?case by (simp add: agree_def)
next
  case (Cons x xs y ys)
  have "[0..<length (x # xs)] = 0 # map Suc [0..<length xs]"
    by (simp add: upt_conv_Cons map_Suc_upt del: upt_Suc)
  then show ?case using Cons.IH
    by (simp add: agree_def filter_map comp_def del: upt_Suc)
qed

lemma spec_overlap_size: "spec_overlap a b = int (size (mset a \<inter># mset b))"
proof -
  let ?h = "\<lambda>c. min (int (count (mset a) c)) (int (count (mset b) c))"
  have z: "?h c = 0" if "c \<notin> set a" for c
  proof -
    from that have cz: "count (mset a) c = 0" by simp
    show ?thesis unfolding cz by simp
  qed
  have "sum ?h (set_mset (mset a)) = sum ?h (set a \<union> set b)"
    by (rule sum.mono_neutral_left) (auto simp: z)
  then show ?thesis
    by (simp add: spec_overlap_def size_inter_sum count_mset)
qed

lemma agree_fst_snd: "map snd (agree a b) = map fst (agree a b)"
  by (simp add: agree_def)

lemma agree_sub_fst: "mset (map fst (agree a b)) \<subseteq># mset a"
proof -
  have "mset (agree a b) \<subseteq># mset (zip a b)"
    by (simp add: agree_def)
  then have "image_mset fst (mset (agree a b)) \<subseteq># image_mset fst (mset (zip a b))"
    by (rule image_mset_subseteq_mono)
  also have "image_mset fst (mset (zip a b)) = mset (take (min (length a) (length b)) a)"
    by (simp add: map_fst_zip_take flip: mset_map)
  also have "\<dots> \<subseteq># mset a"
    by (metis append_take_drop_id mset_append mset_subset_eq_add_left)
  finally show ?thesis by simp
qed

lemma agree_sub_snd: "mset (map snd (agree a b)) \<subseteq># mset b"
proof -
  have "mset (agree a b) \<subseteq># mset (zip a b)"
    by (simp add: agree_def)
  then have "image_mset snd (mset (agree a b)) \<subseteq># image_mset snd (mset (zip a b))"
    by (rule image_mset_subseteq_mono)
  also have "image_mset snd (mset (zip a b)) = mset (take (min (length a) (length b)) b)"
    by (simp add: map_snd_zip_take flip: mset_map)
  also have "\<dots> \<subseteq># mset b"
    by (metis append_take_drop_id mset_append mset_subset_eq_add_left)
  finally show ?thesis by simp
qed

lemma agree_le_inter: "length (agree a b) \<le> size (mset a \<inter># mset b)"
proof -
  let ?E = "mset (map fst (agree a b))"
  have "?E \<subseteq># mset a" by (rule agree_sub_fst)
  moreover have "?E \<subseteq># mset b"
    using agree_sub_snd[of a b] by (simp only: agree_fst_snd)
  ultimately have "?E \<subseteq># mset a \<inter># mset b" by simp
  then have "size ?E \<le> size (mset a \<inter># mset b)" by (rule size_mset_mono)
  then show ?thesis by simp
qed

lemma agree_all: "length a = length b \<Longrightarrow> length (agree a b) = length a \<longleftrightarrow> a = b"
proof (induction a b rule: list_induct2)
  case Nil
  show ?case by (simp add: agree_def)
next
  case (Cons x xs y ys)
  have le: "length (agree xs ys) \<le> length xs"
    using length_filter_le[of _ "zip xs ys"] Cons.hyps by (simp add: agree_def)
  show ?case
  proof (cases "x = y")
    case True
    with Cons.IH show ?thesis by (simp add: agree_def)
  next
    case False
    with le show ?thesis by (simp add: agree_def)
  qed
qed

lemma agree_sym: "length (agree a b) = length (agree b a)"
proof (induction a arbitrary: b)
  case Nil
  show ?case by (simp add: agree_def)
next
  case (Cons x xs)
  show ?case
  proof (cases b)
    case Nil
    then show ?thesis by (simp add: agree_def)
  next
    case (Cons y ys)
    with Cons.IH[of ys] show ?thesis by (auto simp: agree_def)
  qed
qed

subsection \<open>Feedback\<close>

lemma blacks_agree:
  "dense a \<Longrightarrow> dense b \<Longrightarrow> length a = length b \<Longrightarrow>
   blacks (scoreGuess a b) = int (length (agree a b))"
  using reduce_blacks_zip[of a b 0 0] by (simp add: scoreGuess_def Let_def)

lemma overlap_dense:
  "dense a \<Longrightarrow> dense b \<Longrightarrow> overlap_of a b = int (size (mset a \<inter># mset b))"
  by (simp add: overlap_of_size dense_read)

lemma whites_dense:
  assumes "dense a" "dense b" "length a = length b"
  shows "whites (scoreGuess a b) = int (size (mset a \<inter># mset b)) - int (length (agree a b))"
proof -
  have "blacks (scoreGuess a b) = reduce_blacks a b 0 0"
    by (simp add: scoreGuess_def Let_def)
  with blacks_agree[OF assms] have b: "reduce_blacks a b 0 0 = int (length (agree a b))"
    by simp
  have "whites (scoreGuess a b) = max 0 (overlap_of a b - reduce_blacks a b 0 0)"
    by (simp add: scoreGuess_def Let_def)
  with b overlap_dense[OF assms(1,2)] agree_le_inter[of a b] show ?thesis
    by simp
qed

lemma scoreGuess_record:
  "scoreGuess a b = \<lparr>blacks = blacks (scoreGuess a b), whites = whites (scoreGuess a b)\<rparr>"
  by simp

lemma score_example: "scoreGuess code_rrbg code_rbby = \<lparr>blacks = 2, whites = 0\<rparr>"
  by (simp add: code_rrbg_def code_rbby_def scoreGuess_def overlap_of_def count_all_def
      count_step_def overlap_step_def js_index_def)

text \<open>
  Claim C1, with its example put right. For two dense arrays of the same length, the
  scorer's \<open>blacks\<close> is the number of indices at which they hold the same value, and
  its \<open>whites\<close> is the overlap minus that number, where the overlap adds up, over the
  values of either array, the smaller of the two numbers of occurrences. On the secret
  \<open>[r, r, b, g]\<close> and the guess \<open>[r, b, b, y]\<close> the feedback is 2 blacks and 0 whites:
  the arrays agree at the positions 0 and 2.
\<close>

theorem scoreGuess_counts:
  assumes "dense a" and "dense b" and "length a = length b"
  shows "blacks (scoreGuess a b) = spec_exact a b \<and>
         whites (scoreGuess a b) = spec_overlap a b - spec_exact a b \<and>
         scoreGuess code_rrbg code_rbby = \<lparr>blacks = 2, whites = 0\<rparr>"
proof -
  have e: "spec_exact a b = int (length (agree a b))"
    using agree_index[OF assms(3)] by (simp add: spec_exact_def)
  show ?thesis
    by (simp add: e blacks_agree[OF assms] whites_dense[OF assms] spec_overlap_size score_example)
qed

theorem scoreGuess_counts_witness:
  "dense code_rrbg \<and> dense code_rbby \<and> length code_rrbg = length code_rbby \<and>
   blacks (scoreGuess code_rrbg code_rbby) = spec_exact code_rrbg code_rbby \<and>
   whites (scoreGuess code_rrbg code_rbby)
     = spec_overlap code_rrbg code_rbby - spec_exact code_rrbg code_rbby"
proof -
  have d: "dense code_rrbg" "dense code_rbby" "length code_rrbg = length code_rbby"
    by (simp_all add: dense_def code_rrbg_def code_rbby_def)
  from scoreGuess_counts[OF d] d show ?thesis by blast
qed

text \<open>
  The example of claim C1 as the claim gives it, 1 black and 1 white, is not what the
  scorer returns.
\<close>

theorem score_example_not_1_1:
  "blacks (scoreGuess code_rrbg code_rbby) = 2 \<and>
   scoreGuess code_rrbg code_rbby \<noteq> \<lparr>blacks = 1, whites = 1\<rparr>"
  by (simp add: code_rrbg_def code_rbby_def scoreGuess_def overlap_of_def count_all_def
      count_step_def overlap_step_def js_index_def)

text \<open>
  Claim C3. Scoring a dense array against itself gives as many blacks as it has
  positions and no white; and for two dense arrays of the same length, the number of
  blacks is the length exactly when the guess is the secret. Repeated values change
  nothing.
\<close>

theorem scoreGuess_identical:
  assumes "dense a" and "dense b" and "length a = length b"
  shows "scoreGuess a a = \<lparr>blacks = int (length a), whites = 0\<rparr> \<and>
         (blacks (scoreGuess a b) = int (length a) \<longleftrightarrow> b = a)"
proof -
  have aa: "length (agree a a) = length a"
    using agree_all[of a a] by simp
  have "blacks (scoreGuess a a) = int (length a)"
    using blacks_agree[OF assms(1) assms(1)] aa by simp
  moreover have "whites (scoreGuess a a) = 0"
    using whites_dense[OF assms(1) assms(1)] aa by simp
  ultimately have "scoreGuess a a = \<lparr>blacks = int (length a), whites = 0\<rparr>"
    by (subst scoreGuess_record) (simp only:)
  moreover have "blacks (scoreGuess a b) = int (length a) \<longleftrightarrow> b = a"
    using blacks_agree[OF assms] agree_all[OF assms(3)] by auto
  ultimately show ?thesis by simp
qed

theorem scoreGuess_identical_witness:
  "dense code_rrbg \<and> dense code_rbby \<and> length code_rrbg = length code_rbby \<and>
   scoreGuess code_rrbg code_rrbg = \<lparr>blacks = 4, whites = 0\<rparr> \<and>
   blacks (scoreGuess code_rrbg code_rbby) \<noteq> 4"
proof -
  have d: "dense code_rrbg" "dense code_rbby" "length code_rrbg = length code_rbby"
    by (simp_all add: dense_def code_rrbg_def code_rbby_def)
  have n: "code_rbby \<noteq> code_rrbg" "int (length code_rrbg) = 4"
    by (simp_all add: code_rrbg_def code_rbby_def)
  from scoreGuess_identical[OF d] d n show ?thesis by simp
qed

text \<open>
  Claim C4. The feedback is bounded by the length of the secret: the blacks lie between
  0 and the length, the whites are not negative, and blacks plus whites do not exceed
  the length. This holds for all arrays, of equal length or not.
\<close>

theorem scoreGuess_bounds:
  "0 \<le> blacks (scoreGuess a b) \<and> blacks (scoreGuess a b) \<le> int (length a) \<and>
   0 \<le> whites (scoreGuess a b) \<and>
   blacks (scoreGuess a b) + whites (scoreGuess a b) \<le> int (length a)"
proof -
  have b: "0 \<le> reduce_blacks a b 0 0" "reduce_blacks a b 0 0 \<le> int (length a)"
    using reduce_blacks_bounds[of 0 a b 0] by simp_all
  have "size (mset (map read_slot a) \<inter># mset (map read_slot b)) \<le> size (mset (map read_slot a))"
    by (rule size_mset_mono) simp
  then have o: "overlap_of a b \<le> int (length a)"
    by (simp add: overlap_of_size)
  from b o show ?thesis
    by (simp add: scoreGuess_def Let_def)
qed

text \<open>
  Claim C9. For two dense arrays of the same length the feedback does not depend on
  which one is taken as the secret: blacks and whites are the same both ways.
\<close>

theorem scoreGuess_symmetric:
  assumes "dense a" and "dense b" and "length a = length b"
  shows "blacks (scoreGuess a b) = blacks (scoreGuess b a) \<and>
         whites (scoreGuess a b) = whites (scoreGuess b a)"
proof -
  have ba: "length b = length a" using assms(3) by simp
  have i: "mset a \<inter># mset b = mset b \<inter># mset a"
    by (rule subset_mset.inf_commute)
  show ?thesis
    using blacks_agree[OF assms] blacks_agree[OF assms(2) assms(1) ba]
      whites_dense[OF assms] whites_dense[OF assms(2) assms(1) ba] agree_sym[of a b] i
    by simp
qed

theorem scoreGuess_symmetric_witness:
  "dense code_rrbg \<and> dense code_rbby \<and> length code_rrbg = length code_rbby \<and>
   blacks (scoreGuess code_rrbg code_rbby) = blacks (scoreGuess code_rbby code_rrbg) \<and>
   whites (scoreGuess code_rrbg code_rbby) = whites (scoreGuess code_rbby code_rrbg)"
proof -
  have d: "dense code_rrbg" "dense code_rbby" "length code_rrbg = length code_rbby"
    by (simp_all add: dense_def code_rrbg_def code_rbby_def)
  from scoreGuess_symmetric[OF d] d show ?thesis by simp
qed

section \<open>Properties of the code generator\<close>

lemma floor_index:
  assumes "0 \<le> r" and "r < 1" and "0 < n"
  shows "0 \<le> \<lfloor>r * real n\<rfloor> \<and> \<lfloor>r * real n\<rfloor> < int n"
proof -
  from assms have "r * real n < real n" by simp
  then have "\<lfloor>r * real n\<rfloor> < int n" by (simp add: floor_less_iff)
  moreover from assms have "0 \<le> r * real n" by simp
  then have "0 \<le> \<lfloor>r * real n\<rfloor>" by simp
  ultimately show ?thesis by simp
qed

lemma key_at_in:
  "0 \<le> j \<Longrightarrow> j < int (length ks) \<Longrightarrow> key_at ks j \<in> Str ` set ks"
  by (simp add: key_at_def)

lemma array_from_limit: "array_from len f = Inl e \<longleftrightarrow> e = RangeError \<and> 4294967296 \<le> len"
  by (auto simp: array_from_def)

lemma array_from_returns:
  "len < 4294967296 \<Longrightarrow> array_from len f = Inr (map f [0..<nat len])"
  by (simp add: array_from_def)

lemma length_array_from:
  "0 \<le> len \<Longrightarrow> array_from len f = Inr xs \<Longrightarrow> int (length xs) = len"
  by (auto simp: array_from_def split: if_splits)

lemma draws_in_palette:
  assumes "rng_ok g" and "ks \<noteq> []"
    and "array_from len (\<lambda>i. key_at ks \<lfloor>math_random g i * real (length ks)\<rfloor>) = Inr code"
  shows "set code \<subseteq> Str ` set ks"
proof -
  have "key_at ks \<lfloor>math_random g i * real (length ks)\<rfloor> \<in> Str ` set ks" for i
  proof -
    from assms have "0 \<le> math_random g i" "math_random g i < 1" "0 < length ks"
      by (simp_all add: rng_ok_def)
    from floor_index[OF this] show ?thesis by (simp add: key_at_in)
  qed
  with assms(3) show ?thesis by (auto simp: array_from_def split: if_splits)
qed

lemma sort_order_props:
  assumes "rng_ok g"
  shows "length (sort_order g ks) = length ks"
    and "set (sort_order g ks) = set ks"
    and "distinct (sort_order g ks) = distinct ks"
proof -
  from assms have m: "mset (sort_order g ks) = mset ks" by (simp add: rng_ok_def)
  from m show "length (sort_order g ks) = length ks" by (rule mset_eq_length)
  from m show "set (sort_order g ks) = set ks" by (rule mset_eq_setD)
  from m show "distinct (sort_order g ks) = distinct ks" by (rule mset_eq_imp_distinct_iff)
qed

lemma distinct_map_Str: "distinct (map Str xs) = distinct xs"
  by (simp add: distinct_map inj_on_def)

lemma rng_first_ok: "rng_ok rng_first"
  by (simp add: rng_ok_def rng_first_def)

lemma rng_rev_ok: "rng_ok rng_rev"
  by (simp add: rng_ok_def rng_rev_def)

lemma randomCode_error:
  "randomCode g ks len dup = Inl e \<Longrightarrow> e = RangeError \<and> 4294967296 \<le> len"
  by (cases dup) (auto simp: Let_def array_from_limit split: if_splits)

lemma randomCode_returns:
  "len < 4294967296 \<Longrightarrow> \<exists>code. randomCode g ks len dup = Inr code"
  by (cases dup) (simp_all add: Let_def array_from_returns)

lemma randomCode_length:
  assumes "rng_ok g" and "0 \<le> len" and "randomCode g ks len dup = Inr code"
  shows "int (length code) = len"
proof (cases "dup \<or> int (length ks) < len")
  case True
  with assms(3)
  have "array_from len (\<lambda>i. key_at ks \<lfloor>math_random g i * real (length ks)\<rfloor>) = Inr code"
    by (cases dup) (auto simp: Let_def)
  with assms(2) show ?thesis by (rule length_array_from)
next
  case False
  with assms(3) have "code = map Str (slice0 (sort_order g ks) len)"
    by (cases dup) (auto simp: Let_def)
  with False assms(2) show ?thesis
    by (auto simp: slice0_def Let_def sort_order_props(1)[OF assms(1)])
qed

text \<open>
  Claim C5, with the limit of the platform. Without duplicates, on a palette of distinct
  keys and a length that is not negative: when the length does not exceed the size of
  the palette, the generator returns exactly \<open>length\<close> pairwise distinct keys of the
  palette. When it does, the call is the call with duplicates allowed, on the same
  arguments; that call returns exactly \<open>length\<close> entries, keys of the palette when the
  palette is not empty, for a length below \<open>2\<^sup>3\<^sup>2\<close>, and raises \<^verbatim>\<open>RangeError\<close> for a
  length of \<open>2\<^sup>3\<^sup>2\<close> or more.
\<close>

theorem randomCode_no_duplicates:
  assumes "rng_ok g" and "distinct ks" and "0 \<le> len"
  shows "if len \<le> int (length ks)
         then \<exists>code. randomCode g ks len False = Inr code \<and>
                int (length code) = len \<and> distinct code \<and> set code \<subseteq> Str ` set ks
         else randomCode g ks len False = randomCode g ks len True \<and>
              (if len < 4294967296
               then \<exists>code. randomCode g ks len False = Inr code \<and>
                      int (length code) = len \<and>
                      (ks \<noteq> [] \<longrightarrow> set code \<subseteq> Str ` set ks)
               else randomCode g ks len False = Inl RangeError)"
proof (cases "len \<le> int (length ks)")
  case True
  let ?arr = "sort_order g ks"
  let ?code = "map Str (slice0 ?arr len)"
  have r: "randomCode g ks len False = Inr ?code"
    using True by (simp add: Let_def)
  have s: "slice0 ?arr len = take (nat len) ?arr"
    using True assms(3) by (simp add: slice0_def Let_def sort_order_props(1)[OF assms(1)])
  have l: "int (length ?code) = len"
    using True assms(3) by (simp add: s sort_order_props(1)[OF assms(1)])
  have d: "distinct ?code"
    using assms(2) by (simp add: s distinct_map_Str sort_order_props(3)[OF assms(1)])
  have "set (take (nat len) ?arr) \<subseteq> set ks"
    using set_take_subset[of "nat len" ?arr] by (simp add: sort_order_props(2)[OF assms(1)])
  then have m: "set ?code \<subseteq> Str ` set ks"
    by (auto simp: s)
  from r l d m True show ?thesis by simp
next
  case False
  let ?draw = "\<lambda>i. key_at ks \<lfloor>math_random g i * real (length ks)\<rfloor>"
  have r: "randomCode g ks len False = randomCode g ks len True"
    using False by (simp add: Let_def)
  have t: "randomCode g ks len True = array_from len ?draw" by simp
  show ?thesis
  proof (cases "len < 4294967296")
    case small: True
    then obtain code where c: "array_from len ?draw = Inr code"
      by (simp add: array_from_returns)
    have l: "int (length code) = len"
      using assms(3) c by (rule length_array_from)
    have m: "ks \<noteq> [] \<longrightarrow> set code \<subseteq> Str ` set ks"
      using draws_in_palette[OF assms(1) _ c] by blast
    from r t c l m False small show ?thesis by simp
  next
    case big: False
    then have "array_from len ?draw = Inl RangeError"
      by (simp add: array_from_def)
    with r t False big show ?thesis by simp
  qed
qed

theorem randomCode_no_duplicates_witness:
  "rng_ok rng_rev \<and> distinct keys_rbg \<and>
   (\<exists>code. randomCode rng_rev keys_rbg 2 False = Inr code \<and> int (length code) = 2 \<and>
      distinct code \<and> set code \<subseteq> Str ` set keys_rbg) \<and>
   (\<exists>code. randomCode rng_rev keys_rbg 5 False = Inr code \<and> int (length code) = 5 \<and>
      set code \<subseteq> Str ` set keys_rbg \<and>
      randomCode rng_rev keys_rbg 5 False = randomCode rng_rev keys_rbg 5 True)"
proof -
  have d: "distinct keys_rbg" and n: "keys_rbg \<noteq> []" and l: "int (length keys_rbg) = 3"
    by (simp_all add: keys_rbg_def)
  have a: "\<exists>code. randomCode rng_rev keys_rbg 2 False = Inr code \<and> int (length code) = 2 \<and>
      distinct code \<and> set code \<subseteq> Str ` set keys_rbg"
    using randomCode_no_duplicates[OF rng_rev_ok d, of 2] l by simp
  have b: "\<exists>code. randomCode rng_rev keys_rbg 5 False = Inr code \<and> int (length code) = 5 \<and>
      set code \<subseteq> Str ` set keys_rbg \<and>
      randomCode rng_rev keys_rbg 5 False = randomCode rng_rev keys_rbg 5 True"
    using randomCode_no_duplicates[OF rng_rev_ok d, of 5] n l by auto
  from rng_rev_ok d a b show ?thesis by simp
qed

text \<open>
  Claim C5 as it is stated fails for a length of \<open>2\<^sup>3\<^sup>2\<close>: the length exceeds the
  three keys of the palette, the generator falls back, and the fallback raises
  \<^verbatim>\<open>RangeError\<close> where the claim has it return a code of that length.
\<close>

theorem randomCode_fallback_limit:
  "int (length keys_rbg) < 4294967296 \<and>
   randomCode rng_rev keys_rbg 4294967296 False = randomCode rng_rev keys_rbg 4294967296 True \<and>
   randomCode rng_rev keys_rbg 4294967296 False = Inl RangeError"
  by (simp add: keys_rbg_def Let_def array_from_def)

text \<open>
  Claim C8, as the generator behaves. No input makes \<^verbatim>\<open>randomCode\<close> end in
  \<open>InvalidConfiguration\<close>. On an empty palette and a positive length it returns
  \<open>length\<close> entries that are all \<^verbatim>\<open>undefined\<close> when the length is below \<open>2\<^sup>3\<^sup>2\<close>,
  and raises \<^verbatim>\<open>RangeError\<close> when it is \<open>2\<^sup>3\<^sup>2\<close> or more. On a length that is not
  positive it returns the empty array when duplicates are allowed; without duplicates it
  returns the empty array for the length 0 and, for a negative length \<open>- n\<close>, the
  shuffled palette without its last \<open>n\<close> keys.
\<close>

theorem randomCode_degenerate:
  assumes "rng_ok g"
  shows "randomCode g ks len dup \<noteq> Inl InvalidConfiguration \<and>
         (if 0 < len
          then randomCode g [] len dup =
                 (if len < 4294967296 then Inr (replicate (nat len) Undefined)
                  else Inl RangeError)
          else randomCode g ks len True = Inr [] \<and>
               randomCode g ks len False =
                 Inr (map Str (if len = 0 then []
                               else take (nat (int (length ks) + len)) (sort_order g ks))))"
proof -
  have e: "randomCode g ks len dup \<noteq> Inl InvalidConfiguration"
    using randomCode_error[of g ks len dup InvalidConfiguration] by auto
  have u: "randomCode g [] len dup =
             (if len < 4294967296 then Inr (replicate (nat len) Undefined) else Inl RangeError)"
    if "0 < len"
    using that by (cases dup) (simp_all add: array_from_def key_at_def map_replicate_const)
  have n: "randomCode g ks len True = Inr []" if "len \<le> 0"
    using that by (simp add: array_from_def)
  have z: "randomCode g ks len False = Inr (map Str [])" if "len = 0"
    using that by (simp add: Let_def slice0_def)
  have m: "randomCode g ks len False =
             Inr (map Str (take (nat (int (length ks) + len)) (sort_order g ks)))" if "len < 0"
    using that assms by (simp add: Let_def slice0_def sort_order_props(1) max_def)
  show ?thesis
  proof (cases "0 < len")
    case True
    with e u show ?thesis by simp
  next
    case False
    show ?thesis
    proof (cases "len = 0")
      case True
      with e n z show ?thesis by simp
    next
      case neg: False
      with False have "len < 0" by simp
      with e n m False neg show ?thesis by simp
    qed
  qed
qed

theorem randomCode_degenerate_witness:
  "rng_ok rng_first \<and>
   randomCode rng_first [] 3 False = Inr [Undefined, Undefined, Undefined] \<and>
   randomCode rng_first [] 4294967296 False = Inl RangeError \<and>
   randomCode rng_first keys_rbg (- 1) True = Inr [] \<and>
   randomCode rng_first keys_rbg (- 1) False = Inr [Str ''r'', Str ''b'']"
proof -
  have r: "replicate (nat 3) Undefined = [Undefined, Undefined, Undefined]"
    by (simp add: numeral_3_eq_3)
  have t: "take (nat (int (length keys_rbg) + (- 1))) (sort_order rng_first keys_rbg) = [''r'', ''b'']"
    by (simp add: keys_rbg_def rng_first_def)
  from randomCode_degenerate[OF rng_first_ok, of "[]" 3 False]
    randomCode_degenerate[OF rng_first_ok, of "[]" 4294967296 False]
    randomCode_degenerate[OF rng_first_ok, of keys_rbg "- 1" False]
    rng_first_ok r t
  show ?thesis by simp
qed

text \<open>
  Claim C8 as it is stated fails: on an empty palette, on the length 0 and on a negative
  length the generator returns an array and no \<open>InvalidConfiguration\<close>.
\<close>

theorem randomCode_returns_malformed:
  "randomCode rng_first [] 3 False = Inr [Undefined, Undefined, Undefined] \<and>
   randomCode rng_first [] 3 False \<noteq> Inl InvalidConfiguration \<and>
   randomCode rng_first keys_rbg 0 True = Inr [] \<and>
   randomCode rng_first keys_rbg 0 True \<noteq> Inl InvalidConfiguration \<and>
   randomCode rng_first keys_rbg (- 1) False = Inr [Str ''r'', Str ''b''] \<and>
   randomCode rng_first keys_rbg (- 1) False \<noteq> Inl InvalidConfiguration"
  by (simp add: rng_first_def keys_rbg_def array_from_def key_at_def slice0_def Let_def upt_rec)

section \<open>Properties of the session\<close>

subsection \<open>The concrete sessions\<close>

lemma init_first: "init rng_first = Inr state_first"
  by (simp add: init_def rng_first_def state_first_def code_rrrr_def array_from_def
      key_at_def defaultPalette_def upt_rec)

lemma score_rrrr_bbbb: "scoreGuess code_rrrr code_bbbb = \<lparr>blacks = 0, whites = 0\<rparr>"
  by (simp add: code_rrrr_def code_bbbb_def scoreGuess_def overlap_of_def count_all_def
      count_step_def overlap_step_def js_index_def)

lemma score_rrrr_rrrr: "scoreGuess code_rrrr code_rrrr = \<lparr>blacks = 4, whites = 0\<rparr>"
  by (simp add: code_rrrr_def scoreGuess_def overlap_of_def count_all_def
      count_step_def overlap_step_def js_index_def)

lemma every_bbbb: "every truthy code_bbbb"
  by (simp add: every_def code_bbbb_def)

lemma every_rrrr: "every truthy code_rrrr"
  by (simp add: every_def code_rrrr_def)

lemma run_budget_trace: "run budget_trace (init rng_first) = Inr budget_state"
  unfolding init_first budget_trace_def budget_state_def
  by (simp add: state_first_def code_rrrr_def code_bbbb_def handlePick_def assign_def
      submit_def canSubmit_def every_def Let_def
      score_rrrr_bbbb[unfolded code_rrrr_def code_bbbb_def]
      setAttempts_def array_from_def upt_rec defaultPalette_def)

subsection \<open>The configured length\<close>

text \<open>
  The length input is clamped and nothing else writes the configured length, so it stays
  between 2 and 10. A new game makes the secret as long as the configured length.
\<close>

lemma init_returns: "\<exists>st. init g = Inr st"
  by (simp add: init_def array_from_def)

lemma init_length: "init g = Inr st \<Longrightarrow> length_st st = 4"
  by (auto simp: init_def array_from_def)

lemma submit_length: "submit st = Inr st' \<Longrightarrow> length_st st' = length_st st"
  by (auto simp: submit_def Let_def split: if_splits sum.splits)

lemma resetGame_length: "resetGame g st = Inr st' \<Longrightarrow> length_st st' = length_st st"
  by (auto simp: resetGame_def split: sum.splits)

lemma step_length_range:
  assumes "step e st = Inr st'" and "2 \<le> length_st st \<and> length_st st \<le> 10"
  shows "2 \<le> length_st st' \<and> length_st st' \<le> 10"
proof (cases e)
  case (NewGame g)
  with assms show ?thesis by (auto dest: resetGame_length)
next
  case Guess
  with assms show ?thesis by (auto dest: submit_length split: if_splits)
next
  case (PickColor i)
  with assms show ?thesis by (auto simp: handlePick_def Let_def)
qed (use assms in \<open>auto simp: setLength_def setAttempts_def addCyanMagenta_def
      handleSetSlot_def toggleReveal_def Let_def\<close>)

lemma run_length_range:
  "run es (Inr st) = Inr st' \<Longrightarrow> 2 \<le> length_st st \<and> length_st st \<le> 10 \<Longrightarrow>
   2 \<le> length_st st' \<and> length_st st' \<le> 10"
proof (induction es arbitrary: st)
  case Nil
  then show ?case by simp
next
  case (Cons e es)
  show ?case
  proof (cases "step e st")
    case (Inl err)
    with Cons.prems(1) have False by (cases es) simp_all
    then show ?thesis ..
  next
    case (Inr st1)
    with Cons.prems(1) have r: "run es (Inr st1) = Inr st'" by simp
    from step_length_range[OF Inr Cons.prems(2)] Cons.IH[OF r] show ?thesis by simp
  qed
qed

lemma length_range:
  assumes "run es (init g) = Inr st"
  shows "2 \<le> length_st st \<and> length_st st \<le> 10"
proof -
  from init_returns obtain st0 where i: "init g = Inr st0" by blast
  from init_length[OF i] have "2 \<le> length_st st0 \<and> length_st st0 \<le> 10" by simp
  with assms i run_length_range[of es st0 st] show ?thesis by simp
qed

lemma resetGame_secret_length:
  assumes "rng_ok g" and "0 \<le> length_st st" and "resetGame g st = Inr st'"
  shows "int (length (secret st')) = length_st st'"
proof -
  from assms(3)
  obtain code where c: "randomCode g (keys st) (length_st st) (allowDup st) = Inr code"
    by (auto simp: resetGame_def split: sum.splits)
  with assms(3) have "secret st' = code" "length_st st' = length_st st"
    by (auto simp: resetGame_def split: sum.splits)
  with randomCode_length[OF assms(1,2) c] show ?thesis by simp
qed

subsection \<open>Submitting a guess\<close>

text \<open>
  Claim C2, with the test of the budget as the source makes it. When every slot of the
  row holds a colour and the game is not over, \<^verbatim>\<open>submit\<close> appends the attempt to the
  history and leaves the secret alone. Then, in this order: if the blacks equal the
  configured length the game is won, also when this was the last attempt of the budget;
  otherwise, if the history now holds at least \<^verbatim>\<open>attempts\<close> attempts, the game is lost;
  otherwise it goes on. When fewer attempts than the budget were recorded before the
  call, this is the decision of the specification, which tests for equality. All of this
  holds whenever the call returns, and it returns in every case but one: when the game
  goes on, the row for the next guess is made with \<^verbatim>\<open>Array.from\<close>, which raises for a
  configured length of \<open>2\<^sup>3\<^sup>2\<close> or more. The application keeps the configured length
  between 2 and 10.
\<close>

theorem submit_decides:
  assumes "canSubmit st"
  shows "if blacks (scoreGuess (secret st) (current st)) \<noteq> length_st st \<and>
            int (length (history st)) + 1 < attempts st \<and> 4294967296 \<le> length_st st
         then submit st = Inl RangeError
         else \<exists>st'. submit st = Inr st' \<and>
           history st' = history st @
             [\<lparr>guess = current st, feedback = scoreGuess (secret st) (current st)\<rparr>] \<and>
           secret st' = secret st \<and>
           status_of st = InProgress \<and>
           status_of st' =
             (if blacks (scoreGuess (secret st) (current st)) = length_st st then Won
              else if attempts st \<le> int (length (history st')) then Lost
              else InProgress) \<and>
           (int (length (history st)) < attempts st \<longrightarrow>
              status_of st' =
                spec_outcome (blacks (scoreGuess (secret st) (current st))) (length_st st)
                  (int (length (history st'))) (attempts st))"
  using assms
  by (simp add: submit_def canSubmit_def status_of_def Let_def spec_outcome_def array_from_def)

theorem submit_decides_witness:
  "canSubmit ready_state \<and> int (length (history ready_state)) < attempts ready_state \<and>
   length_st ready_state < 4294967296 \<and>
   (\<exists>st'. submit ready_state = Inr st' \<and> status_of st' = Won \<and> length (history st') = 1)"
proof -
  have c: "canSubmit ready_state"
    by (simp add: canSubmit_def ready_state_def state_first_def every_rrrr)
  have s: "secret ready_state = code_rrrr" "current ready_state = code_rrrr"
    "length_st ready_state = 4" "history ready_state = []" "attempts ready_state = 10"
    by (simp_all add: ready_state_def state_first_def)
  from submit_decides[OF c] c show ?thesis
    by (auto simp: s score_rrrr_rrrr)
qed

text \<open>
  Claim C2 as it is stated fails in a session where the budget is lowered below the
  number of recorded attempts: after one attempt the budget is set to 1, and the second
  attempt, which is not a win, ends the game as lost, since 2 is at least 1; by the
  rule of the claim the game would go on, since 2 is not 1.
\<close>

theorem submit_over_budget:
  "run budget_trace (init rng_first) = Inr budget_state \<and>
   canSubmit budget_state \<and>
   status_of budget_state = InProgress \<and>
   submit budget_state = Inr budget_after \<and>
   status_of budget_after = Lost \<and>
   spec_outcome (blacks (feedback (last (history budget_after)))) (length_st budget_state)
     (int (length (history budget_after))) (attempts budget_state) = InProgress"
proof -
  have c: "canSubmit budget_state"
    by (simp add: canSubmit_def budget_state_def state_first_def every_bbbb)
  have s: "submit budget_state = Inr budget_after"
    by (simp add: submit_def c Let_def)
      (simp add: budget_after_def budget_state_def state_first_def score_rrrr_bbbb)
  have o: "status_of budget_state = InProgress" "status_of budget_after = Lost"
    by (simp_all add: status_of_def budget_after_def budget_state_def state_first_def)
  have q: "spec_outcome (blacks (feedback (last (history budget_after)))) (length_st budget_state)
     (int (length (history budget_after))) (attempts budget_state) = InProgress"
    by (simp add: spec_outcome_def budget_after_def budget_state_def state_first_def)
  from run_budget_trace c s o q show ?thesis by simp
qed

text \<open>
  Claim C6, as \<^verbatim>\<open>submit\<close> behaves. When the game is over, or when a slot of the row is
  not set, \<^verbatim>\<open>submit\<close> returns at once and the whole state is as before: nothing is
  appended to the history, and secret and status are untouched. It returns normally.
\<close>

theorem submit_rejected:
  assumes "gameOver st \<or> Null \<in> set (current st)"
  shows "submit st = Inr st"
proof -
  have "\<not> every truthy xs" if "Null \<in> set xs" for xs
    using that by (auto simp: every_def list_all_iff)
  with assms have "\<not> canSubmit st" by (auto simp: canSubmit_def)
  then show ?thesis by (simp add: submit_def)
qed

theorem submit_rejected_witness:
  "gameOver won_state \<and> submit won_state = Inr won_state \<and>
   Null \<in> set (current state_first) \<and> submit state_first = Inr state_first"
proof -
  have g: "gameOver won_state" by (simp add: won_state_def)
  have n: "Null \<in> set (current state_first)" by (simp add: state_first_def)
  from g n submit_rejected[of won_state] submit_rejected[of state_first]
  show ?thesis by simp
qed

text \<open>
  Claim C6 as it is stated fails: neither after a won game nor on a row with a slot that
  is not set does \<^verbatim>\<open>submit\<close> end in \<open>InvalidInput\<close>.
\<close>

theorem submit_raises_nothing:
  "submit ready_state = Inr won_state \<and> status_of won_state = Won \<and>
   submit won_state \<noteq> Inl InvalidInput \<and>
   Null \<in> set (current state_first) \<and> submit state_first \<noteq> Inl InvalidInput"
proof -
  have c: "canSubmit ready_state"
    by (simp add: canSubmit_def ready_state_def state_first_def every_rrrr)
  have r: "submit ready_state = Inr won_state"
    by (simp add: submit_def c Let_def)
      (simp add: won_state_def ready_state_def state_first_def score_rrrr_rrrr)
  have w: "status_of won_state = Won"
    by (simp add: status_of_def won_state_def ready_state_def state_first_def)
  have "\<not> canSubmit won_state" by (simp add: canSubmit_def won_state_def)
  then have a: "submit won_state = Inr won_state" by (simp add: submit_def)
  have n: "Null \<in> set (current state_first)" by (simp add: state_first_def)
  then have "\<not> canSubmit state_first"
    by (simp add: canSubmit_def every_def state_first_def)
  then have b: "submit state_first = Inr state_first" by (simp add: submit_def)
  from r w a b n show ?thesis by simp
qed

subsection \<open>Changing the configuration\<close>

text \<open>
  Claim C7 does not hold of the source. The handler of the length input writes the
  configured length and nothing else, and nothing calls \<^verbatim>\<open>resetGame\<close> when the
  configuration changes. After the first render and a change of the length to 5, the
  secret still has 4 entries.
\<close>

theorem secret_length_after_change:
  "run [ChangeLength 5] (init rng_first) = Inr longer_state \<and>
   int (length (secret longer_state)) = 4 \<and> length_st longer_state = 5"
  unfolding init_first
  by (simp add: longer_state_def setLength_def state_first_def code_rrrr_def)

subsection \<open>Showing the secret\<close>

lemma toggle_pow: "(toggleReveal ^^ n) st = st\<lparr>reveal := (reveal st = even n)\<rparr>"
  by (induction n) (auto simp: toggleReveal_def)

text \<open>
  Claim C10. Pressing the reveal button any number of times changes the flag
  \<^verbatim>\<open>reveal\<close> and nothing else: secret, history, the game-over flag and the status are
  as before, and whenever the secret is shown it is the secret of the state the presses
  started from.
\<close>

theorem reveal_read_only:
  "secret ((toggleReveal ^^ n) st) = secret st \<and>
   history ((toggleReveal ^^ n) st) = history st \<and>
   gameOver ((toggleReveal ^^ n) st) = gameOver st \<and>
   status_of ((toggleReveal ^^ n) st) = status_of st \<and>
   revealSecret ((toggleReveal ^^ n) st) =
     (if reveal st = even n then Some (secret st) else None) \<and>
   (toggleReveal ^^ n) st = st\<lparr>reveal := (reveal st = even n)\<rparr>"
  by (simp add: toggle_pow status_of_def revealSecret_def)

end
